theory Spec2Isabelle
  imports Main "HOL-Library.AList"
begin

section \<open>The crossword generator (generate.py) as HOL functions\<close>

text \<open>
  Conventions of the embedding.
  \<^item> A Python \<^verbatim>\<open>set\<close> is the list of its elements in iteration order; where the source
    builds a set out of a list (\<^verbatim>\<open>set([...])\<close>) the model removes duplicates.
  \<^item> The assignment \<^verbatim>\<open>dict\<close> is an association list in insertion order, as Python
    dictionaries are; \<^verbatim>\<open>self.domains\<close> is a map, since no function depends on its key order.
  \<^item> \<^verbatim>\<open>self.domains\<close> is the only state of a \<^verbatim>\<open>CrosswordCreator\<close> that its methods write;
    every method that may write it takes the map and returns the new one.
  \<^item> An exception is the left summand of the result.
\<close>

subsection \<open>Puzzle model\<close>

datatype direction = ACROSS | DOWN

datatype variable =
  Variable (var_i: nat) (var_j: nat) (var_direction: direction) (var_length: nat)

datatype error = KeyError | IndexError | TypeError | RecursionError

text \<open>
  Modelled from the spec: the class \<^verbatim>\<open>Crossword\<close> of crossword.py, which generate.py imports,
  is not part of the sources. The spec (sections 3 and 6) gives the puzzle model as a finite
  set of slots, a word pool, and for a pair of slots either an overlap record
  \<^verbatim>\<open>(indexInA, indexInB)\<close> or none; generate.py reads them as \<^verbatim>\<open>crossword.variables\<close>,
  \<^verbatim>\<open>crossword.words\<close> and \<^verbatim>\<open>crossword.overlaps[a, b]\<close>.
\<close>

record crossword =
  variables :: "variable list"
  words :: "string list"
  overlaps :: "variable \<times> variable \<rightharpoonup> nat \<times> nat"

text \<open>
  Modelled from the spec: \<^verbatim>\<open>Crossword.neighbors\<close> is not part of the sources. Spec, section 3:
  a slot's neighbors are all other slots with which it has an overlap record. The lookup
  is written \<^verbatim>\<open>overlaps[v, var]\<close>, the neighbour first.
\<close>

definition neighbors :: "crossword \<Rightarrow> variable \<Rightarrow> variable list" where
  "neighbors cw var = [v \<leftarrow> variables cw. v \<noteq> var \<and> overlaps cw (v, var) \<noteq> None]"

type_synonym domains = "variable \<rightharpoonup> string list"

type_synonym assignment = "(variable \<times> string) list"

subsection \<open>Construction and node consistency\<close>

text \<open>\<^verbatim>\<open>__init__\<close>: every variable starts with a copy of the whole word pool.\<close>

definition init_domains :: "crossword \<Rightarrow> domains" where
  "init_domains cw = (\<lambda>var. if var \<in> set (variables cw) then Some (words cw) else None)"

definition enforce_node_consistency :: "domains \<Rightarrow> domains" where
  "enforce_node_consistency doms =
     (\<lambda>var. case doms var of
        None \<Rightarrow> None
      | Some domain \<Rightarrow> Some (remdups [dom \<leftarrow> domain. length dom = var_length var]))"

subsection \<open>revise\<close>

text \<open>
  The list comprehension of \<^verbatim>\<open>revise\<close>:
  \<^verbatim>\<open>[domX for domX in list(self.domains[x]) if domX[xOverlap]==domY[yOverlap]]\<close>.
  Indexing a string past its end raises IndexError; the left operand is read first.
\<close>

fun revise_res :: "string list \<Rightarrow> nat \<Rightarrow> nat \<Rightarrow> string \<Rightarrow> error + string list" where
  "revise_res [] xOverlap yOverlap domY = Inr []"
| "revise_res (domX # rest) xOverlap yOverlap domY =
     (if length domX \<le> xOverlap then Inl IndexError
      else if length domY \<le> yOverlap then Inl IndexError
      else (case revise_res rest xOverlap yOverlap domY of
              Inl e \<Rightarrow> Inl e
            | Inr res \<Rightarrow>
                Inr (if domX ! xOverlap = domY ! yOverlap then domX # res else res)))"

text \<open>
  The loop \<^verbatim>\<open>for domY in self.domains[y]\<close> with its accumulator \<^verbatim>\<open>auxiliar\<close>.
  \<^verbatim>\<open>res.remove(domY)\<close> deletes the first occurrence of \<^verbatim>\<open>domY\<close>, and is guarded by
  \<^verbatim>\<open>domY in res\<close>; \<^verbatim>\<open>auxiliar.union(set(res).difference(auxiliar))\<close> adds the new
  elements of \<^verbatim>\<open>res\<close>.
\<close>

fun revise_for :: "string list \<Rightarrow> string list \<Rightarrow> nat \<Rightarrow> nat \<Rightarrow> string list \<Rightarrow> error + string list" where
  "revise_for [] domX_all xOverlap yOverlap auxiliar = Inr auxiliar"
| "revise_for (domY # rest) domX_all xOverlap yOverlap auxiliar =
     (case revise_res domX_all xOverlap yOverlap domY of
        Inl e \<Rightarrow> Inl e
      | Inr res \<Rightarrow>
          revise_for rest domX_all xOverlap yOverlap
            (auxiliar @ [w \<leftarrow> remdups (if domY \<in> set res then remove1 domY res else res).
                           w \<notin> set auxiliar]))"

text \<open>
  Python compares an \<^verbatim>\<open>int\<close> with a \<^verbatim>\<open>set\<close> by identity: \<^verbatim>\<open>n != s\<close> is always
  \<^verbatim>\<open>True\<close> and \<^verbatim>\<open>s == n\<close> is always \<^verbatim>\<open>False\<close>.
\<close>

definition int_ne_set :: "nat \<Rightarrow> string list \<Rightarrow> bool" where
  "int_ne_set n s = True"

definition set_eq_int :: "string list \<Rightarrow> nat \<Rightarrow> bool" where
  "set_eq_int s n = False"

text \<open>
  \<^verbatim>\<open>revise(x, y)\<close>. The lookups come in the source's order: \<^verbatim>\<open>self.domains[x]\<close> (KeyError),
  \<^verbatim>\<open>self.crossword.overlaps[y,x][0]\<close> (TypeError when there is no overlap record),
  \<^verbatim>\<open>self.domains[y]\<close> (KeyError). The only write, \<^verbatim>\<open>self.domains[x]=auxiliar\<close>, is after the
  loop; the returned flag is \<^verbatim>\<open>len(xOriginal)!=self.domains[x]\<close>.
\<close>

definition revise :: "crossword \<Rightarrow> domains \<Rightarrow> variable \<Rightarrow> variable \<Rightarrow> error + (domains \<times> bool)" where
  "revise cw doms x y =
     (case doms x of
        None \<Rightarrow> Inl KeyError
      | Some xOriginal \<Rightarrow>
          (case overlaps cw (y, x) of
             None \<Rightarrow> Inl TypeError
           | Some (yOverlap, xOverlap) \<Rightarrow>
               (case doms y of
                  None \<Rightarrow> Inl KeyError
                | Some domsY \<Rightarrow>
                    (case revise_for domsY xOriginal xOverlap yOverlap [] of
                       Inl e \<Rightarrow> Inl e
                     | Inr auxiliar \<Rightarrow>
                         Inr (doms(x \<mapsto> auxiliar),
                              int_ne_set (length xOriginal) auxiliar)))))"

subsection \<open>ac3\<close>

text \<open>The initial worklist: \<^verbatim>\<open>(vecino, var)\<close> for every variable and every neighbour of it.\<close>

definition initial_arcs :: "crossword \<Rightarrow> (variable \<times> variable) list" where
  "initial_arcs cw =
     concat (map (\<lambda>var. map (\<lambda>vecino. (vecino, var)) (neighbors cw var)) (variables cw))"

text \<open>
  One iteration of the \<^verbatim>\<open>while\<close> loop, after \<^verbatim>\<open>q=quee.pop(0)\<close>: the result is an
  exception, the early \<^verbatim>\<open>return False\<close>, or the next domains and worklist.
  \<^verbatim>\<open>vecinos.remove(q[1])\<close> raises KeyError when \<^verbatim>\<open>q[1]\<close> is not in the set.
\<close>

datatype iteration =
  Return domains bool
| Continue domains "(variable \<times> variable) list"

definition ac3_body ::
  "crossword \<Rightarrow> domains \<Rightarrow> variable \<times> variable \<Rightarrow> (variable \<times> variable) list
     \<Rightarrow> error + iteration" where
  "ac3_body cw doms q quee =
     (case revise cw doms (fst q) (snd q) of
        Inl e \<Rightarrow> Inl e
      | Inr (doms', revised) \<Rightarrow>
          if revised then
            (case doms' (fst q) of
               None \<Rightarrow> Inl KeyError
             | Some d \<Rightarrow>
                 if set_eq_int d 0 then Inr (Return doms' False)
                 else if snd q \<notin> set (neighbors cw (fst q)) then Inl KeyError
                 else Inr (Continue doms'
                        (quee @ map (\<lambda>vecino. (vecino, fst q))
                                  (removeAll (snd q) (neighbors cw (fst q))))))
          else Inr (Continue doms' quee))"

text \<open>
  The \<^verbatim>\<open>while len(quee)!=0\<close> loop. It need not end, so it is a partial function:
  \<open>None\<close> is the loop that runs forever.
\<close>

partial_function (option) ac3_while ::
  "crossword \<Rightarrow> domains \<Rightarrow> (variable \<times> variable) list \<Rightarrow> (error + (domains \<times> bool)) option" where
  "ac3_while cw doms quee =
     (case quee of
        [] \<Rightarrow> Some (Inr (doms, True))
      | q # rest \<Rightarrow>
          (case ac3_body cw doms q rest of
             Inl e \<Rightarrow> Some (Inl e)
           | Inr (Return doms' b) \<Rightarrow> Some (Inr (doms', b))
           | Inr (Continue doms' quee') \<Rightarrow> ac3_while cw doms' quee'))"

declare ac3_while.simps [code]

text \<open>\<^verbatim>\<open>ac3(arcs=None)\<close>: the parameter \<^verbatim>\<open>arcs\<close> is never read.\<close>

definition ac3 ::
  "crossword \<Rightarrow> domains \<Rightarrow> (variable \<times> variable) list option \<Rightarrow> (error + (domains \<times> bool)) option" where
  "ac3 cw doms arcs = ac3_while cw doms (initial_arcs cw)"


subsection \<open>consistent and assignment\_complete\<close>

text \<open>
  The inner loop of \<^verbatim>\<open>consistent\<close>, over the assigned neighbours of \<^verbatim>\<open>var\<close>. The condition
  \<^verbatim>\<open>word[overlap[0]]!=assignment[vecino][overlap[1]]\<close> reads \<^verbatim>\<open>overlap[0]\<close> (TypeError when
  there is no overlap record), then \<^verbatim>\<open>word[...]\<close>, then \<^verbatim>\<open>assignment[vecino]\<close>, then its
  character.
\<close>

fun consistent_vecinos ::
  "crossword \<Rightarrow> assignment \<Rightarrow> variable \<Rightarrow> string \<Rightarrow> bool \<Rightarrow> variable list \<Rightarrow> error + bool" where
  "consistent_vecinos cw assignment var word consisten [] = Inr consisten"
| "consistent_vecinos cw assignment var word consisten (vecino # rest) =
     (case overlaps cw (var, vecino) of
        None \<Rightarrow> Inl TypeError
      | Some overlap \<Rightarrow>
          if length word \<le> fst overlap then Inl IndexError
          else (case map_of assignment vecino of
                  None \<Rightarrow> Inl KeyError
                | Some word' \<Rightarrow>
                    if length word' \<le> snd overlap then Inl IndexError
                    else consistent_vecinos cw assignment var word
                           (if word ! fst overlap \<noteq> word' ! snd overlap then False else consisten)
                           rest))"

text \<open>
  The outer loop, over \<^verbatim>\<open>assignment.items()\<close>. In the \<^verbatim>\<open>else\<close> branch the source assigns
  \<^verbatim>\<open>consistent=False\<close>, a fresh local name: the flag \<^verbatim>\<open>consisten\<close> that is returned keeps
  its value.
\<close>

fun consistent_items ::
  "crossword \<Rightarrow> assignment \<Rightarrow> bool \<Rightarrow> (variable \<times> string) list \<Rightarrow> error + bool" where
  "consistent_items cw assignment consisten [] = Inr consisten"
| "consistent_items cw assignment consisten ((var, word) # rest) =
     (if var_length var = length word then
        (case consistent_vecinos cw assignment var word consisten
                [v \<leftarrow> neighbors cw var. v \<in> set (map fst assignment)] of
           Inl e \<Rightarrow> Inl e
         | Inr consisten' \<Rightarrow> consistent_items cw assignment consisten' rest)
      else consistent_items cw assignment consisten rest)"

definition consistent :: "crossword \<Rightarrow> assignment \<Rightarrow> error + bool" where
  "consistent cw assignment = consistent_items cw assignment True assignment"

text \<open>\<^verbatim>\<open>and\<close> evaluates \<^verbatim>\<open>consistent\<close> only when the two sizes agree.\<close>

definition assignment_complete :: "crossword \<Rightarrow> assignment \<Rightarrow> error + bool" where
  "assignment_complete cw assignment =
     (if length (variables cw) = length (map fst assignment)
      then consistent cw assignment else Inr False)"

subsection \<open>order\_domain\_values\<close>

text \<open>Python's \<^verbatim>\<open>set.intersection_update\<close> changes its receiver and returns \<^verbatim>\<open>None\<close>.\<close>

definition intersection_update :: "'a list \<Rightarrow> 'a list \<Rightarrow> 'a list option" where
  "intersection_update s t = None"

text \<open>
  The loop \<^verbatim>\<open>for vecino in list(knownVecinos)\<close>: it resets \<^verbatim>\<open>self.domains[var]\<close> to
  \<^verbatim>\<open>domOriginal\<close> and calls \<^verbatim>\<open>revise\<close>. The counters \<^verbatim>\<open>arcDomains\<close> it also updates are
  local and are not returned (the function returns the result of \<^verbatim>\<open>.sort()\<close>, which is
  \<^verbatim>\<open>None\<close>), so they are left out.
\<close>

fun order_domain_values_for ::
  "crossword \<Rightarrow> variable \<Rightarrow> string list \<Rightarrow> domains \<Rightarrow> variable list \<Rightarrow> error + domains" where
  "order_domain_values_for cw var domOriginal doms [] = Inr doms"
| "order_domain_values_for cw var domOriginal doms (vecino # rest) =
     (case revise cw (doms(var \<mapsto> domOriginal)) var vecino of
        Inl e \<Rightarrow> Inl e
      | Inr (doms', _) \<Rightarrow> order_domain_values_for cw var domOriginal doms' rest)"

text \<open>The result is the new domains and the returned value: a list, or \<^verbatim>\<open>None\<close>.\<close>

definition order_domain_values ::
  "crossword \<Rightarrow> domains \<Rightarrow> variable \<Rightarrow> assignment \<Rightarrow> error + (domains \<times> string list option)" where
  "order_domain_values cw doms var assignment =
     (case doms var of
        None \<Rightarrow> Inl KeyError
      | Some domOriginal \<Rightarrow>
          (case intersection_update (map fst assignment) (neighbors cw var) of
             None \<Rightarrow> Inr (doms, Some domOriginal)
           | Some knownVecinos \<Rightarrow>
               if knownVecinos \<noteq> [] then
                 (case order_domain_values_for cw var domOriginal doms knownVecinos of
                    Inl e \<Rightarrow> Inl e
                  | Inr doms' \<Rightarrow> Inr (doms', None))
               else Inr (doms, Some domOriginal)))"

subsection \<open>select\_unassigned\_variable\<close>

definition symmetric_difference :: "'a list \<Rightarrow> 'a list \<Rightarrow> 'a list" where
  "symmetric_difference s t = [x \<leftarrow> s. x \<notin> set t] @ [x \<leftarrow> remdups t. x \<notin> set s]"

text \<open>\<^verbatim>\<open>{x:len(self.domains[x]) for x in list(unusedVar)}\<close>, KeyError for a missing key.\<close>

fun maxdatosDict :: "domains \<Rightarrow> variable list \<Rightarrow> error + (variable \<times> nat) list" where
  "maxdatosDict doms [] = Inr []"
| "maxdatosDict doms (x # rest) =
     (case doms x of
        None \<Rightarrow> Inl KeyError
      | Some d \<Rightarrow>
          (case maxdatosDict doms rest of
             Inl e \<Rightarrow> Inl e
           | Inr r \<Rightarrow> Inr ((x, length d) # r)))"

text \<open>
  \<^verbatim>\<open>max(d.values())\<close> is evaluated in the condition of a comprehension over the items of
  \<^verbatim>\<open>d\<close>, hence only for a non-empty \<^verbatim>\<open>d\<close>; of natural numbers it is the fold of \<open>max\<close>.
\<close>

definition max_values :: "('k \<times> nat) list \<Rightarrow> nat" where
  "max_values d = fold max (map snd d) 0"

text \<open>\<^verbatim>\<open>list(d.keys()).pop()\<close>: the last key, IndexError on an empty dictionary.\<close>

definition keys_pop :: "('k \<times> nat) list \<Rightarrow> error + 'k" where
  "keys_pop d = (if d = [] then Inl IndexError else Inr (fst (last d)))"

definition select_unassigned_variable ::
  "crossword \<Rightarrow> domains \<Rightarrow> assignment \<Rightarrow> error + variable" where
  "select_unassigned_variable cw doms assignment =
     (let usedVariables = map fst assignment;
          unusedVar = symmetric_difference (variables cw) usedVariables
      in case maxdatosDict doms unusedVar of
           Inl e \<Rightarrow> Inl e
         | Inr maxdatos \<Rightarrow>
             (let degreeDatosDict = map (\<lambda>x. (x, length (neighbors cw x))) unusedVar;
                  maxDict = [(key, item) \<leftarrow> maxdatos. item = max_values maxdatos];
                  degreeDict =
                    [(key, item) \<leftarrow> degreeDatosDict. item = max_values degreeDatosDict]
              in if length maxdatos > 1 then
                   (if length degreeDict > 1 then keys_pop degreeDict
                    else keys_pop degreeDict)
                 else keys_pop maxDict))"

subsection \<open>backtrack and solve\<close>

text \<open>
  The loop \<^verbatim>\<open>for value in self.order_domain_values(variable,assignment)\<close>. \<open>rec\<close> is the
  recursive call \<^verbatim>\<open>self.backtrack\<close>. The dictionary \<^verbatim>\<open>assignment\<close> is shared by all calls and
  written in place, so its final contents are part of the result, next to the final
  domains and the returned value (\<^verbatim>\<open>None\<close> or the dictionary itself).
\<close>

type_synonym backtrack_result = "error + (domains \<times> assignment \<times> assignment option)"

fun backtrack_for ::
  "(domains \<Rightarrow> assignment \<Rightarrow> backtrack_result) \<Rightarrow> crossword \<Rightarrow> domains \<Rightarrow> variable
     \<Rightarrow> assignment \<Rightarrow> string list \<Rightarrow> backtrack_result" where
  "backtrack_for rec cw doms variable assignment [] = Inr (doms, assignment, None)"
| "backtrack_for rec cw doms variable assignment (value # rest) =
     (case consistent cw (AList.update variable value assignment) of
        Inl e \<Rightarrow> Inl e
      | Inr True \<Rightarrow>
          (case rec doms (AList.update variable value assignment) of
             Inl e \<Rightarrow> Inl e
           | Inr (doms', assignment', result) \<Rightarrow>
               if result \<noteq> None then Inr (doms', assignment', result)
               else Inr (doms', assignment', result))
      | Inr False \<Rightarrow>
          backtrack_for rec cw doms variable
            (AList.delete variable (AList.update variable value assignment)) rest)"

text \<open>
  \<^verbatim>\<open>backtrack\<close> calls itself, and nothing in it bounds the depth for an arbitrary
  dictionary; Python bounds it, by its recursion limit. The first argument is the number of
  nested calls still allowed, RecursionError at none. A \<^verbatim>\<open>None\<close> from
  \<^verbatim>\<open>order_domain_values\<close> cannot be iterated (TypeError).
\<close>

primrec backtrack :: "nat \<Rightarrow> crossword \<Rightarrow> domains \<Rightarrow> assignment \<Rightarrow> backtrack_result" where
  "backtrack 0 cw doms assignment = Inl RecursionError"
| "backtrack (Suc depth) cw doms assignment =
     (case assignment_complete cw assignment of
        Inl e \<Rightarrow> Inl e
      | Inr True \<Rightarrow> Inr (doms, assignment, Some assignment)
      | Inr False \<Rightarrow>
          (case select_unassigned_variable cw doms assignment of
             Inl e \<Rightarrow> Inl e
           | Inr variable \<Rightarrow>
               (case order_domain_values cw doms variable assignment of
                  Inl e \<Rightarrow> Inl e
                | Inr (doms', None) \<Rightarrow> Inl TypeError
                | Inr (doms', Some vals) \<Rightarrow>
                    backtrack_for (backtrack depth cw) cw doms' variable assignment vals)))"

text \<open>
  \<^verbatim>\<open>solve\<close>: node consistency, \<^verbatim>\<open>ac3\<close> (its returned flag is dropped), then \<^verbatim>\<open>backtrack\<close>
  on a new dictionary. \<open>None\<close> is a call that never returns, because \<^verbatim>\<open>ac3\<close> does not.
\<close>

definition solve :: "nat \<Rightarrow> crossword \<Rightarrow> domains \<Rightarrow> backtrack_result option" where
  "solve depth cw doms =
     (case ac3 cw (enforce_node_consistency doms) None of
        None \<Rightarrow> None
      | Some (Inl e) \<Rightarrow> Some (Inl e)
      | Some (Inr (doms', _)) \<Rightarrow> Some (backtrack depth cw doms' []))"


subsection \<open>Predicates used in the statements\<close>

text \<open>Every word of every domain has the length of its slot (node consistency).\<close>

definition node_consistent :: "domains \<Rightarrow> bool" where
  "node_consistent doms =
     (\<forall>var d. doms var = Some d \<longrightarrow> (\<forall>w \<in> set d. length w = var_length var))"

text \<open>Every domain of \<open>doms'\<close> is a subset of the domain the same slot has in \<open>doms\<close>.\<close>

definition domains_le :: "domains \<Rightarrow> domains \<Rightarrow> bool" where
  "domains_le doms' doms =
     (\<forall>var d'. doms' var = Some d' \<longrightarrow> (\<exists>d. doms var = Some d \<and> set d' \<subseteq> set d))"

text \<open>
  The invariant of the dictionary \<^verbatim>\<open>assignment\<close> during the search: its keys are slots of
  the puzzle, no key occurs twice, and every word has the length of its slot.
\<close>

definition assignment_good :: "crossword \<Rightarrow> assignment \<Rightarrow> bool" where
  "assignment_good cw a =
     (distinct (map fst a) \<and> set (map fst a) \<subseteq> set (variables cw) \<and>
      (\<forall>(var, word) \<in> set a. length word = var_length var))"

text \<open>
  The states of the \<^verbatim>\<open>ac3\<close> loop: \<open>ac3_reach cw doms0 (doms, quee)\<close> holds when the loop
  started on the domains \<open>doms0\<close> is at the test of its \<^verbatim>\<open>while\<close> with the domains
  \<open>doms\<close> and the worklist \<open>quee\<close>. The head of \<open>quee\<close> is the pair the next iteration
  passes to \<^verbatim>\<open>revise\<close>.
\<close>

inductive ac3_reach ::
  "crossword \<Rightarrow> domains \<Rightarrow> domains \<times> (variable \<times> variable) list \<Rightarrow> bool"
  for cw :: crossword and doms0 :: domains where
  start: "ac3_reach cw doms0 (doms0, initial_arcs cw)"
| iterate: "ac3_reach cw doms0 (doms, q # rest) \<Longrightarrow>
            ac3_body cw doms q rest = Inr (Continue doms' quee') \<Longrightarrow>
            ac3_reach cw doms0 (doms', quee')"

text \<open>
  A state of the \<^verbatim>\<open>ac3\<close> loop from which no iteration leaves: the puzzle records every
  overlap in both orders, with indices inside the slots, every slot has two different
  neighbours, the domains are node consistent and present for every slot, and the
  worklist is not empty and holds pairs of neighbours.
\<close>

definition ac3_busy :: "crossword \<Rightarrow> domains \<Rightarrow> (variable \<times> variable) list \<Rightarrow> bool" where
  "ac3_busy cw doms quee =
     ((\<forall>x \<in> set (variables cw). \<forall>y \<in> set (neighbors cw x). overlaps cw (x, y) \<noteq> None) \<and>
      (\<forall>x \<in> set (variables cw).
         \<exists>a \<in> set (neighbors cw x). \<exists>b \<in> set (neighbors cw x). a \<noteq> b) \<and>
      (\<forall>x y iy ix. overlaps cw (y, x) = Some (iy, ix) \<longrightarrow>
         iy < var_length y \<and> ix < var_length x) \<and>
      node_consistent doms \<and>
      (\<forall>x \<in> set (variables cw). doms x \<noteq> None) \<and>
      quee \<noteq> [] \<and>
      (\<forall>(a, b) \<in> set quee. a \<in> set (neighbors cw b) \<and> b \<in> set (variables cw)))"

subsection \<open>Example puzzles\<close>

text \<open>
  Two crossing slots of length 3: the second cell of the horizontal slot is the first cell
  of the vertical one.
\<close>

definition slotA :: variable where "slotA = Variable 0 0 ACROSS 3"
definition slotB :: variable where "slotB = Variable 0 1 DOWN 3"

definition cross_puzzle :: "string list \<Rightarrow> crossword" where
  "cross_puzzle ws =
     \<lparr> variables = [slotA, slotB], words = ws,
       overlaps = map_of [((slotA, slotB), (1, 0)), ((slotB, slotA), (0, 1))] \<rparr>"

text \<open>
  A horizontal slot of length 3 crossed at its first cell by a vertical slot of length 2
  and at its last cell by a vertical slot of length 4.
\<close>

definition forkA :: variable where "forkA = Variable 0 0 ACROSS 3"
definition forkB :: variable where "forkB = Variable 0 0 DOWN 2"
definition forkC :: variable where "forkC = Variable 0 2 DOWN 4"

definition fork_puzzle :: "string list \<Rightarrow> crossword" where
  "fork_puzzle ws =
     \<lparr> variables = [forkA, forkB, forkC], words = ws,
       overlaps = map_of [((forkA, forkB), (0, 0)), ((forkB, forkA), (0, 0)),
                          ((forkA, forkC), (2, 0)), ((forkC, forkA), (0, 2))] \<rparr>"

text \<open>
  The border of a 3 by 3 grid: two horizontal and two vertical slots of length 3, each
  crossing two others at its ends.
\<close>

definition ringTop :: variable where "ringTop = Variable 0 0 ACROSS 3"
definition ringBottom :: variable where "ringBottom = Variable 2 0 ACROSS 3"
definition ringLeft :: variable where "ringLeft = Variable 0 0 DOWN 3"
definition ringRight :: variable where "ringRight = Variable 0 2 DOWN 3"

definition ring_puzzle :: "string list \<Rightarrow> crossword" where
  "ring_puzzle ws =
     \<lparr> variables = [ringTop, ringBottom, ringLeft, ringRight], words = ws,
       overlaps = map_of
         [((ringTop, ringLeft), (0, 0)), ((ringLeft, ringTop), (0, 0)),
          ((ringTop, ringRight), (2, 0)), ((ringRight, ringTop), (0, 2)),
          ((ringBottom, ringLeft), (0, 2)), ((ringLeft, ringBottom), (2, 0)),
          ((ringBottom, ringRight), (2, 2)), ((ringRight, ringBottom), (2, 2))] \<rparr>"

section \<open>Properties\<close>

subsection \<open>Domains only shrink: revise and ac3\<close>

lemma revise_res_Inr:
  "revise_res dx ix iy v = Inr res \<Longrightarrow> res = [w \<leftarrow> dx. w ! ix = v ! iy]"
  by (induction dx arbitrary: res) (auto split: if_splits sum.splits)

lemma revise_res_total:
  "\<forall>w \<in> set dx. ix < length w \<Longrightarrow> dx = [] \<or> iy < length v \<Longrightarrow>
   revise_res dx ix iy v = Inr [w \<leftarrow> dx. w ! ix = v ! iy]"
  by (induction dx) auto

lemma revise_for_subset:
  "revise_for dy dx ix iy aux = Inr r \<Longrightarrow> set r \<subseteq> set aux \<union> set dx"
proof (induction dy arbitrary: aux)
  case Nil
  then show ?case by simp
next
  case (Cons v dy)
  from Cons.prems obtain res where res: "revise_res dx ix iy v = Inr res"
    and rest: "revise_for dy dx ix iy
       (aux @ [w \<leftarrow> remdups (if v \<in> set res then remove1 v res else res). w \<notin> set aux]) = Inr r"
    by (auto split: sum.splits)
  have "set res \<subseteq> set dx" using revise_res_Inr [OF res] by auto
  moreover have "set (remove1 v res) \<subseteq> set res" by (rule set_remove1_subset)
  ultimately show ?case using Cons.IH [OF rest] by (auto split: if_splits)
qed

lemma revise_for_set:
  assumes "revise_for dy dx ix iy aux = Inr r" and "distinct dx"
  shows "set r = set aux \<union> {w \<in> set dx. \<exists>v \<in> set dy. v \<noteq> w \<and> w ! ix = v ! iy}"
  using assms(1)
proof (induction dy arbitrary: aux)
  case Nil
  then show ?case by simp
next
  case (Cons v dy)
  from Cons.prems obtain res where res: "revise_res dx ix iy v = Inr res"
    and rest: "revise_for dy dx ix iy
       (aux @ [w \<leftarrow> remdups (if v \<in> set res then remove1 v res else res). w \<notin> set aux]) = Inr r"
    by (auto split: sum.splits)
  have r: "res = [w \<leftarrow> dx. w ! ix = v ! iy]" by (rule revise_res_Inr [OF res])
  have d: "distinct res" using r assms(2) by simp
  have "set (if v \<in> set res then remove1 v res else res) = {w \<in> set dx. v \<noteq> w \<and> w ! ix = v ! iy}"
    using d r by auto
  then show ?case using Cons.IH [OF rest] by auto
qed

lemma revise_for_distinct:
  "revise_for dy dx ix iy aux = Inr r \<Longrightarrow> distinct aux \<Longrightarrow> distinct r"
proof (induction dy arbitrary: aux)
  case Nil
  then show ?case by simp
next
  case (Cons v dy)
  from Cons.prems obtain res where
    rest: "revise_for dy dx ix iy
       (aux @ [w \<leftarrow> remdups (if v \<in> set res then remove1 v res else res). w \<notin> set aux]) = Inr r"
    by (auto split: sum.splits)
  have "distinct (aux @ [w \<leftarrow> remdups (if v \<in> set res then remove1 v res else res). w \<notin> set aux])"
    using Cons.prems(2) by auto
  then show ?case using Cons.IH [OF rest] by blast
qed

lemma revise_for_total:
  "\<forall>w \<in> set dx. ix < length w \<Longrightarrow> \<forall>v \<in> set dy. iy < length v \<Longrightarrow>
   \<exists>r. revise_for dy dx ix iy aux = Inr r"
  by (induction dy arbitrary: aux) (auto simp: revise_res_total)

lemma revise_Inr:
  assumes "revise cw doms x y = Inr (doms', b)"
  obtains dx dy iy ix aux where "doms x = Some dx" "doms y = Some dy"
    "overlaps cw (y, x) = Some (iy, ix)" "revise_for dy dx ix iy [] = Inr aux"
    "doms' = doms(x \<mapsto> aux)" "b"
  using assms unfolding revise_def int_ne_set_def
  by (auto split: option.splits sum.splits)

lemma revise_domains_le:
  assumes "revise cw doms x y = Inr (doms', b)"
  shows "domains_le doms' doms"
proof -
  from assms obtain dx dy iy ix aux where h: "doms x = Some dx"
    "revise_for dy dx ix iy [] = Inr aux" "doms' = doms(x \<mapsto> aux)"
    by (rule revise_Inr)
  have "set aux \<subseteq> set dx" using revise_for_subset [OF h(2)] by simp
  then show ?thesis using h(1,3) by (auto simp: domains_le_def)
qed

lemma domains_le_refl: "domains_le doms doms"
  by (simp add: domains_le_def)

lemma domains_le_trans: "domains_le d3 d2 \<Longrightarrow> domains_le d2 d1 \<Longrightarrow> domains_le d3 d1"
  unfolding domains_le_def by (meson subset_trans)

lemma node_consistent_le: "domains_le doms' doms \<Longrightarrow> node_consistent doms \<Longrightarrow> node_consistent doms'"
  unfolding domains_le_def node_consistent_def by (meson subsetD)

lemma enforce_node_consistency_le: "domains_le (enforce_node_consistency doms) doms"
  by (auto simp: domains_le_def enforce_node_consistency_def split: option.splits)

lemma enforce_node_consistency_nc: "node_consistent (enforce_node_consistency doms)"
  by (auto simp: node_consistent_def enforce_node_consistency_def split: option.splits)

lemma ac3_body_le:
  "ac3_body cw doms q rest = Inr (Continue doms' quee') \<Longrightarrow> domains_le doms' doms"
  "ac3_body cw doms q rest = Inr (Return doms' b) \<Longrightarrow> domains_le doms' doms"
  unfolding ac3_body_def
  by (auto split: sum.splits if_splits option.splits dest: revise_domains_le)


lemma ac3_while_unfold_Continue:
  "ac3_body cw doms q rest = Inr (Continue d qq) \<Longrightarrow>
   ac3_while cw doms (q # rest) = ac3_while cw d qq"
  by (subst ac3_while.simps) simp

lemma ac3_while_le_aux:
  assumes "ac3_while cw doms quee = Some res"
  shows "\<forall>doms' b. res = Inr (doms', b) \<longrightarrow> domains_le doms' doms"
  using assms
proof (induct rule: ac3_while.raw_induct)
  case (1 f cw doms quee res)
  show ?case
  proof (cases quee)
    case Nil
    with 1(2) show ?thesis by (auto simp: domains_le_refl)
  next
    case (Cons q rest)
    show ?thesis
    proof (cases "ac3_body cw doms q rest")
      case (Inl e)
      with 1(2) Cons show ?thesis by auto
    next
      case (Inr it)
      show ?thesis
      proof (cases it)
        case (Return d bb)
        with 1(2) Cons Inr show ?thesis by (auto dest: ac3_body_le)
      next
        case (Continue d qq)
        with 1(2) Cons Inr have "f cw d qq = Some res" by simp
        moreover have "ac3_while cw d qq = Some res"
          using 1(3) Cons Inr Continue by (simp add: ac3_while_unfold_Continue)
        ultimately have "\<forall>doms' b. res = Inr (doms', b) \<longrightarrow> domains_le doms' d"
          by (rule 1(1))
        moreover have "domains_le d doms" using Inr Continue by (auto dest: ac3_body_le)
        ultimately show ?thesis by (blast intro: domains_le_trans)
      qed
    qed
  qed
qed (rule assms)

lemma ac3_le: "ac3 cw doms arcs = Some (Inr (doms', b)) \<Longrightarrow> domains_le doms' doms"
  unfolding ac3_def using ac3_while_le_aux by blast

subsection \<open>What a successful call tells: consistent, selection, value order\<close>

lemma consistent_vecinos_True:
  "consistent_vecinos cw a var word c vs = Inr True \<Longrightarrow>
   c \<and> (\<forall>u \<in> set vs. \<exists>i j w'. overlaps cw (var, u) = Some (i, j) \<and> map_of a u = Some w' \<and>
          i < length word \<and> j < length w' \<and> word ! i = w' ! j)"
proof (induction vs arbitrary: c)
  case Nil
  then show ?case by simp
next
  case (Cons u vs)
  from Cons.prems obtain i j w' where
    ov: "overlaps cw (var, u) = Some (i, j)" and i: "i < length word"
    and w': "map_of a u = Some w'" and j: "j < length w'"
    and rest: "consistent_vecinos cw a var word
                 (if word ! i \<noteq> w' ! j then False else c) vs = Inr True"
    by (auto split: option.splits if_splits)
  from Cons.IH [OF rest] have c: "(if word ! i \<noteq> w' ! j then False else c)"
    and all: "\<forall>u \<in> set vs. \<exists>i j w'. overlaps cw (var, u) = Some (i, j) \<and> map_of a u = Some w' \<and>
          i < length word \<and> j < length w' \<and> word ! i = w' ! j"
    by blast+
  from c have "c" and "word ! i = w' ! j" by (auto split: if_splits)
  with ov i w' j all show ?case by auto
qed

lemma consistent_items_True:
  "consistent_items cw a c items = Inr True \<Longrightarrow>
   c \<and> (\<forall>(var, word) \<in> set items. var_length var = length word \<longrightarrow>
          (\<forall>u \<in> set (neighbors cw var). u \<in> set (map fst a) \<longrightarrow>
             (\<exists>i j w'. overlaps cw (var, u) = Some (i, j) \<and> map_of a u = Some w' \<and>
                i < length word \<and> j < length w' \<and> word ! i = w' ! j)))"
proof (induction items arbitrary: c)
  case Nil
  then show ?case by simp
next
  case (Cons p items)
  obtain var word where p: "p = (var, word)" by (cases p)
  show ?case
  proof (cases "var_length var = length word")
    case False
    with Cons.prems p have "consistent_items cw a c items = Inr True" by simp
    from Cons.IH [OF this] False p show ?thesis by auto
  next
    case True
    with Cons.prems p obtain c' where
      v: "consistent_vecinos cw a var word c
            [v \<leftarrow> neighbors cw var. v \<in> set (map fst a)] = Inr c'"
      and rest: "consistent_items cw a c' items = Inr True"
      by (auto split: sum.splits)
    from Cons.IH [OF rest] have c': "c'" and all: "\<forall>(var, word) \<in> set items. var_length var = length word \<longrightarrow>
          (\<forall>u \<in> set (neighbors cw var). u \<in> set (map fst a) \<longrightarrow>
             (\<exists>i j w'. overlaps cw (var, u) = Some (i, j) \<and> map_of a u = Some w' \<and>
                i < length word \<and> j < length w' \<and> word ! i = w' ! j))"
      by blast+
    from v c' have "consistent_vecinos cw a var word c
            [v \<leftarrow> neighbors cw var. v \<in> set (map fst a)] = Inr True" by simp
    from consistent_vecinos_True [OF this] p all show ?thesis by auto
  qed
qed

lemma maxdatosDict_Inr:
  "maxdatosDict doms xs = Inr m \<Longrightarrow> map fst m = xs \<and> (\<forall>x \<in> set xs. doms x \<noteq> None)"
  by (induction xs arbitrary: m) (auto split: option.splits sum.splits)

lemma keys_pop_Inr: "keys_pop d = Inr k \<Longrightarrow> k \<in> fst ` set d"
  by (auto simp: keys_pop_def split: if_splits)

lemma select_unassigned_variable_Inr:
  assumes "select_unassigned_variable cw doms a = Inr v"
  shows "v \<in> set (symmetric_difference (variables cw) (map fst a)) \<and> doms v \<noteq> None"
proof -
  let ?unused = "symmetric_difference (variables cw) (map fst a)"
  from assms obtain m where m: "maxdatosDict doms ?unused = Inr m"
    by (auto simp: select_unassigned_variable_def Let_def split: sum.splits)
  from maxdatosDict_Inr [OF m] have keys: "map fst m = ?unused"
    and present: "\<forall>x \<in> set ?unused. doms x \<noteq> None" by blast+
  let ?deg = "map (\<lambda>x. (x, length (neighbors cw x))) ?unused"
  from assms m have
    "keys_pop [(key, item) \<leftarrow> ?deg. item = max_values ?deg] = Inr v \<or>
     keys_pop [(key, item) \<leftarrow> m. item = max_values m] = Inr v"
    by (auto simp: select_unassigned_variable_def Let_def split: if_splits)
  then have "v \<in> fst ` set ?deg \<or> v \<in> fst ` set m"
    by (auto dest!: keys_pop_Inr)
  moreover have "fst ` set ?deg = set ?unused" by force
  moreover have "fst ` set m = set ?unused" using keys by (metis set_map)
  ultimately have "v \<in> set ?unused" by blast
  with present show ?thesis by blast
qed

lemma symmetric_difference_subset:
  "set t \<subseteq> set s \<Longrightarrow> set (symmetric_difference s t) = set s - set t"
  by (auto simp: symmetric_difference_def)

lemma order_domain_values_for_le:
  "order_domain_values_for cw var dO doms vs = Inr doms' \<Longrightarrow>
   doms var = Some d \<Longrightarrow> set d \<subseteq> set dO \<Longrightarrow>
   domains_le doms' (doms(var \<mapsto> dO))"
proof (induction vs arbitrary: doms d)
  case Nil
  then show ?case by (auto simp: domains_le_def)
next
  case (Cons u vs)
  from Cons.prems(1) obtain d1 b where
    r: "revise cw (doms(var \<mapsto> dO)) var u = Inr (d1, b)"
    and rest: "order_domain_values_for cw var dO d1 vs = Inr doms'"
    by (auto split: sum.splits)
  from r obtain dx dy iy ix aux where h: "(doms(var \<mapsto> dO)) var = Some dx"
    "revise_for dy dx ix iy [] = Inr aux" "d1 = (doms(var \<mapsto> dO))(var \<mapsto> aux)"
    by (rule revise_Inr)
  from h(1) have "dx = dO" by simp
  with revise_for_subset [OF h(2)] have sub: "set aux \<subseteq> set dO" by simp
  from h(3) have "d1 var = Some aux" and same: "d1(var \<mapsto> dO) = doms(var \<mapsto> dO)" by simp_all
  from Cons.IH [OF rest this(1) sub] same show ?case by simp
qed

lemma order_domain_values_le:
  assumes "order_domain_values cw doms var a = Inr (doms', vals)"
  shows "domains_le doms' doms"
proof -
  from assms obtain dO where dO: "doms var = Some dO"
    by (auto simp: order_domain_values_def split: option.splits)
  then have same: "doms(var \<mapsto> dO) = doms" by (rule map_upd_triv)
  from assms dO have "doms' = doms \<or>
      (\<exists>ks. order_domain_values_for cw var dO doms ks = Inr doms')"
    by (auto simp: order_domain_values_def split: option.splits if_splits sum.splits)
  then show ?thesis
    using order_domain_values_for_le [of cw var dO doms _ doms' dO] same dO
    by (auto simp: domains_le_refl)
qed

lemma order_domain_values_Some:
  assumes "order_domain_values cw doms var a = Inr (doms', Some vals)"
  shows "doms' = doms \<and> doms var = Some vals"
  using assms
  by (auto simp: order_domain_values_def split: option.splits if_splits sum.splits)

subsection \<open>The search keeps its invariant\<close>

lemma set_update_subset: "set (AList.update k v al) \<subseteq> insert (k, v) (set al)"
  by (induction al) auto

lemma assignment_good_update:
  assumes "assignment_good cw a" "var \<in> set (variables cw)" "length word = var_length var"
  shows "assignment_good cw (AList.update var word a)"
proof -
  have "distinct (map fst (AList.update var word a))"
    using assms(1) by (simp add: assignment_good_def distinct_update)
  moreover have "set (map fst (AList.update var word a)) \<subseteq> set (variables cw)"
    using assms(1,2) dom_update [of var word a] by (auto simp: assignment_good_def)
  moreover have "\<forall>(v, w) \<in> set (AList.update var word a). length w = var_length v"
    using assms(1,3) set_update_subset [of var word a] by (auto simp: assignment_good_def)
  ultimately show ?thesis by (simp add: assignment_good_def)
qed

lemma backtrack_for_le:
  assumes "\<And>d a d' a' r. rec d a = Inr (d', a', r) \<Longrightarrow> domains_le d' d"
  shows "backtrack_for rec cw doms var a vals = Inr (doms', a', r) \<Longrightarrow> domains_le doms' doms"
proof (induction vals arbitrary: a)
  case Nil
  then show ?case by (simp add: domains_le_refl)
next
  case (Cons v vals)
  show ?case
  proof (cases "consistent cw (AList.update var v a)")
    case (Inl e)
    with Cons.prems show ?thesis by simp
  next
    case (Inr c)
    show ?thesis
    proof (cases c)
      case True
      with Cons.prems Inr have "rec doms (AList.update var v a) = Inr (doms', a', r)"
        by (auto split: sum.splits)
      then show ?thesis by (rule assms)
    next
      case False
      with Cons.prems Inr have
        "backtrack_for rec cw doms var (AList.delete var (AList.update var v a)) vals
           = Inr (doms', a', r)" by simp
      then show ?thesis by (rule Cons.IH)
    qed
  qed
qed

lemma backtrack_le:
  "backtrack depth cw doms a = Inr (doms', a', r) \<Longrightarrow> domains_le doms' doms"
proof (induction depth arbitrary: doms a doms' a' r)
  case 0
  then show ?case by simp
next
  case (Suc depth)
  show ?case
  proof (cases "assignment_complete cw a")
    case (Inl e)
    with Suc.prems show ?thesis by simp
  next
    case (Inr c)
    show ?thesis
    proof (cases c)
      case True
      with Suc.prems Inr show ?thesis by (simp add: domains_le_refl)
    next
      case False
      with Suc.prems Inr obtain var d1 vals where
        o: "order_domain_values cw doms var a = Inr (d1, Some vals)"
        and f: "backtrack_for (backtrack depth cw) cw d1 var a vals = Inr (doms', a', r)"
        by (auto split: sum.splits option.splits)
      have "domains_le doms' d1"
        using Suc.IH f by (rule backtrack_for_le)
      moreover have "domains_le d1 doms" using o by (rule order_domain_values_le)
      ultimately show ?thesis by (rule domains_le_trans)
    qed
  qed
qed

lemma backtrack_for_found:
  assumes rec: "\<And>b d' a' r. assignment_good cw b \<Longrightarrow> rec doms b = Inr (d', a', Some r) \<Longrightarrow>
                  r = a' \<and> assignment_good cw a' \<and> assignment_complete cw a' = Inr True"
    and var: "var \<in> set (variables cw)" "var \<notin> fst ` set a"
    and good: "assignment_good cw a"
    and vals: "\<forall>w \<in> set vals. length w = var_length var"
  shows "backtrack_for rec cw doms var a vals = Inr (doms', a', Some r) \<Longrightarrow>
         r = a' \<and> assignment_good cw a' \<and> assignment_complete cw a' = Inr True"
  using vals
proof (induction vals)
  case Nil
  then show ?case by simp
next
  case (Cons v vals)
  show ?case
  proof (cases "consistent cw (AList.update var v a)")
    case (Inl e)
    with Cons.prems show ?thesis by simp
  next
    case (Inr c)
    show ?thesis
    proof (cases c)
      case True
      with Cons.prems(1) Inr have r: "rec doms (AList.update var v a) = Inr (doms', a', Some r)"
        by (auto split: sum.splits)
      have "assignment_good cw (AList.update var v a)"
        using good var(1) Cons.prems(2) by (simp add: assignment_good_update)
      then show ?thesis using r by (rule rec)
    next
      case False
      have "AList.delete var (AList.update var v a) = a"
        using var(2) by (simp add: delete_update_same)
      with Cons.prems(1) Inr False have
        "backtrack_for rec cw doms var a vals = Inr (doms', a', Some r)" by simp
      then show ?thesis using Cons.IH Cons.prems(2) by simp
    qed
  qed
qed

lemma backtrack_found:
  "backtrack depth cw doms a = Inr (doms', a', Some r) \<Longrightarrow> node_consistent doms \<Longrightarrow>
   assignment_good cw a \<Longrightarrow>
   r = a' \<and> assignment_good cw a' \<and> assignment_complete cw a' = Inr True"
proof (induction depth arbitrary: a doms' a' r)
  case 0
  then show ?case by simp
next
  case (Suc depth)
  show ?case
  proof (cases "assignment_complete cw a")
    case (Inl e)
    with Suc.prems show ?thesis by simp
  next
    case (Inr c)
    show ?thesis
    proof (cases c)
      case True
      with Suc.prems Inr show ?thesis by auto
    next
      case False
      with Suc.prems(1) Inr obtain var d1 vals where
        s: "select_unassigned_variable cw doms a = Inr var"
        and o: "order_domain_values cw doms var a = Inr (d1, Some vals)"
        and f: "backtrack_for (backtrack depth cw) cw d1 var a vals = Inr (doms', a', Some r)"
        by (auto split: sum.splits option.splits)
      from order_domain_values_Some [OF o] have d1: "d1 = doms" and dv: "doms var = Some vals"
        by simp_all
      have keys: "set (map fst a) \<subseteq> set (variables cw)"
        using Suc.prems(3) by (simp add: assignment_good_def)
      from select_unassigned_variable_Inr [OF s] symmetric_difference_subset [OF keys]
      have var: "var \<in> set (variables cw)" "var \<notin> fst ` set a" by auto
      have vals: "\<forall>w \<in> set vals. length w = var_length var"
        using Suc.prems(2) dv by (auto simp: node_consistent_def)
      from f d1 have f': "backtrack_for (backtrack depth cw) cw doms var a vals
          = Inr (doms', a', Some r)" by simp
      show ?thesis
      proof (rule backtrack_for_found [OF _ var Suc.prems(3) vals f'])
        fix b d' a' r
        assume "assignment_good cw b" "backtrack depth cw doms b = Inr (d', a', Some r)"
        then show "r = a' \<and> assignment_good cw a' \<and> assignment_complete cw a' = Inr True"
          using Suc.IH Suc.prems(2) by blast
      qed
    qed
  qed
qed

lemma complete_good_valid:
  assumes c: "assignment_complete cw a = Inr True" and g: "assignment_good cw a"
  shows "set (map fst a) = set (variables cw) \<and>
     (\<forall>v \<in> set (variables cw). \<forall>u \<in> set (neighbors cw v).
        \<exists>w w' i j. map_of a v = Some w \<and> map_of a u = Some w' \<and>
          overlaps cw (v, u) = Some (i, j) \<and> i < length w \<and> j < length w' \<and> w ! i = w' ! j)"
proof -
  from c have len: "length (variables cw) = length a" and con: "consistent cw a = Inr True"
    by (auto simp: assignment_complete_def split: if_splits)
  from g have d: "distinct (map fst a)" and sub: "set (map fst a) \<subseteq> set (variables cw)"
    and lens: "\<forall>(v, w) \<in> set a. length w = var_length v"
    by (auto simp: assignment_good_def)
  have "card (set (map fst a)) = length a" using d distinct_card by fastforce
  moreover have "card (set (variables cw)) \<le> length (variables cw)" by (rule card_length)
  ultimately have "card (set (variables cw)) \<le> card (set (map fst a))" using len by simp
  with sub have keys: "set (map fst a) = set (variables cw)"
    by (meson List.finite_set card_seteq)
  from con have items: "\<forall>(var, word) \<in> set a. var_length var = length word \<longrightarrow>
          (\<forall>u \<in> set (neighbors cw var). u \<in> set (map fst a) \<longrightarrow>
             (\<exists>i j w'. overlaps cw (var, u) = Some (i, j) \<and> map_of a u = Some w' \<and>
                i < length word \<and> j < length w' \<and> word ! i = w' ! j))"
    unfolding consistent_def by (blast dest: consistent_items_True)
  have "\<exists>w w' i j. map_of a v = Some w \<and> map_of a u = Some w' \<and>
          overlaps cw (v, u) = Some (i, j) \<and> i < length w \<and> j < length w' \<and> w ! i = w' ! j"
    if v: "v \<in> set (variables cw)" and u: "u \<in> set (neighbors cw v)" for v u
  proof -
    from v keys obtain w where w: "(v, w) \<in> set a" by force
    with d have m: "map_of a v = Some w" by simp
    from u have "u \<in> set (variables cw)" by (simp add: neighbors_def)
    with keys have uk: "u \<in> set (map fst a)" by simp
    from lens w have "var_length v = length w" by auto
    with items w u uk m show ?thesis by fastforce
  qed
  with keys show ?thesis by blast
qed

text \<open>The definitions a concrete call unfolds to.\<close>

lemmas run_defs =
  solve_def ac3_def initial_arcs_def neighbors_def enforce_node_consistency_def
  init_domains_def ac3_while.simps ac3_body_def revise_def int_ne_set_def set_eq_int_def
  assignment_complete_def consistent_def select_unassigned_variable_def
  symmetric_difference_def max_values_def keys_pop_def order_domain_values_def
  intersection_update_def cross_puzzle_def fork_puzzle_def slotA_def slotB_def
  forkA_def forkB_def forkC_def

subsection \<open>solve\<close>

text \<open>
  C1. If \<^verbatim>\<open>solve()\<close> returns an assignment, the assignment is complete and consistent: its
  keys are exactly the slots of the puzzle, each once; every word has the length of its
  slot; and for every slot and every neighbour of it the overlap record is present and
  the two words carry the same character at the overlap positions. The returned value is
  the dictionary the search wrote. This holds for any recursion limit and any domains the
  creator starts from.
\<close>

theorem solve_returns_valid_assignment:
  assumes "solve depth cw doms = Some (Inr (doms', a', Some r))"
  shows "r = a' \<and> distinct (map fst r) \<and> set (map fst r) = set (variables cw) \<and>
     (\<forall>(var, word) \<in> set r. length word = var_length var) \<and>
     (\<forall>v \<in> set (variables cw). \<forall>u \<in> set (neighbors cw v).
        \<exists>w w' i j. map_of r v = Some w \<and> map_of r u = Some w' \<and>
          overlaps cw (v, u) = Some (i, j) \<and> i < length w \<and> j < length w' \<and> w ! i = w' ! j)"
proof -
  from assms obtain d1 b where
    a: "ac3 cw (enforce_node_consistency doms) None = Some (Inr (d1, b))"
    and bt: "backtrack depth cw d1 [] = Inr (doms', a', Some r)"
    by (auto simp: solve_def split: option.splits sum.splits)
  have "node_consistent d1"
    using ac3_le [OF a] enforce_node_consistency_nc by (rule node_consistent_le)
  moreover have "assignment_good cw []" by (simp add: assignment_good_def)
  ultimately have r: "r = a'" and g: "assignment_good cw a'"
    and c: "assignment_complete cw a' = Inr True"
    using backtrack_found [OF bt] by blast+
  from complete_good_valid [OF c g] g r show ?thesis
    by (simp add: assignment_good_def)
qed

text \<open>
  The two crossing slots with the pool CAT, ARM: \<^verbatim>\<open>solve\<close> returns ARM for the vertical
  slot and CAT for the horizontal one, and the theorem applies.
\<close>

theorem solve_returns_valid_assignment_witness:
  "\<exists>d. solve 5 (cross_puzzle [''CAT'', ''ARM'']) (init_domains (cross_puzzle [''CAT'', ''ARM'']))
         = Some (Inr (d, [(slotB, ''ARM''), (slotA, ''CAT'')],
                      Some [(slotB, ''ARM''), (slotA, ''CAT'')]))
       \<and> set (map fst [(slotB, ''ARM''), (slotA, ''CAT'')])
           = set (variables (cross_puzzle [''CAT'', ''ARM'']))"
proof -
  have "\<exists>d. solve 5 (cross_puzzle [''CAT'', ''ARM''])
               (init_domains (cross_puzzle [''CAT'', ''ARM'']))
         = Some (Inr (d, [(slotB, ''ARM''), (slotA, ''CAT'')],
                      Some [(slotB, ''ARM''), (slotA, ''CAT'')]))"
    by (simp add: run_defs eval_nat_numeral)
  then obtain d where h: "solve 5 (cross_puzzle [''CAT'', ''ARM''])
               (init_domains (cross_puzzle [''CAT'', ''ARM'']))
         = Some (Inr (d, [(slotB, ''ARM''), (slotA, ''CAT'')],
                      Some [(slotB, ''ARM''), (slotA, ''CAT'')]))" by blast
  from solve_returns_valid_assignment [OF h]
  have "set (map fst [(slotB, ''ARM''), (slotA, ''CAT'')])
           = set (variables (cross_puzzle [''CAT'', ''ARM'']))" by blast
  with h show ?thesis by blast
qed

subsection \<open>consistent\<close>

text \<open>
  C7 (the claim: an assignment with a word whose length differs from its slot's length is
  not consistent). The code at the input \<^verbatim>\<open>{slotA: "CATS"}\<close>, a word of 4 letters for a slot
  of length 3: \<^verbatim>\<open>consistent\<close> returns \<^verbatim>\<open>True\<close>.
\<close>

theorem consistent_accepts_wrong_length:
  "consistent (cross_puzzle [''CAT'', ''ARM'']) [(slotA, ''CATS'')] = Inr True
   \<and> var_length slotA = 3 \<and> length ''CATS'' = 4"
  by (simp add: consistent_def slotA_def)


subsection \<open>Domains only shrink\<close>

text \<open>
  C9. Domains only shrink: after \<^verbatim>\<open>enforce_node_consistency\<close>, and after every call of
  \<^verbatim>\<open>revise\<close>, \<^verbatim>\<open>ac3\<close>, \<^verbatim>\<open>order_domain_values\<close>, \<^verbatim>\<open>backtrack\<close> and \<^verbatim>\<open>solve\<close> that returns,
  each slot's domain is a subset of the domain the slot had before the call, and no slot
  gains a domain. For \<^verbatim>\<open>order_domain_values\<close> this covers the branch that calls \<^verbatim>\<open>revise\<close>
  as well as the one the code takes.
\<close>

theorem domains_only_shrink:
  "domains_le (enforce_node_consistency doms) doms \<and>
   (\<forall>x y doms' b. revise cw doms x y = Inr (doms', b) \<longrightarrow> domains_le doms' doms) \<and>
   (\<forall>arcs doms' b. ac3 cw doms arcs = Some (Inr (doms', b)) \<longrightarrow> domains_le doms' doms) \<and>
   (\<forall>var a doms' vals.
      order_domain_values cw doms var a = Inr (doms', vals) \<longrightarrow> domains_le doms' doms) \<and>
   (\<forall>depth a doms' a' r.
      backtrack depth cw doms a = Inr (doms', a', r) \<longrightarrow> domains_le doms' doms) \<and>
   (\<forall>depth doms' a' r.
      solve depth cw doms = Some (Inr (doms', a', r)) \<longrightarrow> domains_le doms' doms)"
proof -
  have s: "domains_le doms' doms" if "solve depth cw doms = Some (Inr (doms', a', r))"
    for depth doms' a' r
  proof -
    from that obtain d1 b where
      a: "ac3 cw (enforce_node_consistency doms) None = Some (Inr (d1, b))"
      and bt: "backtrack depth cw d1 [] = Inr (doms', a', r)"
      by (auto simp: solve_def split: option.splits sum.splits)
    have "domains_le d1 doms"
      using ac3_le [OF a] enforce_node_consistency_le by (rule domains_le_trans)
    with backtrack_le [OF bt] show ?thesis by (rule domains_le_trans)
  qed
  show ?thesis
    by (intro conjI allI impI;
        (rule enforce_node_consistency_le | erule revise_domains_le | erule ac3_le
         | erule order_domain_values_le | erule backtrack_le | erule s))
qed

text \<open>
  On the two crossing slots with the pool CAT, ARM every one of the five calls returns, and
  \<^verbatim>\<open>revise\<close> shrinks the domain of the vertical slot to ARM.
\<close>

theorem domains_only_shrink_witness:
  "\<exists>d1 d2 d3 d4 d5.
     revise (cross_puzzle [''CAT'', ''ARM'']) (init_domains (cross_puzzle [''CAT'', ''ARM'']))
       slotB slotA = Inr (d1, True) \<and> d1 slotB = Some [''ARM''] \<and>
     domains_le d1 (init_domains (cross_puzzle [''CAT'', ''ARM''])) \<and>
     ac3 (cross_puzzle [''CAT'', ''ARM'']) (init_domains (cross_puzzle [''CAT'', ''ARM'']))
       None = Some (Inr (d2, True)) \<and>
     domains_le d2 (init_domains (cross_puzzle [''CAT'', ''ARM''])) \<and>
     order_domain_values (cross_puzzle [''CAT'', ''ARM''])
       (init_domains (cross_puzzle [''CAT'', ''ARM''])) slotA []
       = Inr (d3, Some [''CAT'', ''ARM'']) \<and>
     domains_le d3 (init_domains (cross_puzzle [''CAT'', ''ARM''])) \<and>
     backtrack 5 (cross_puzzle [''CAT'', ''ARM''])
       (init_domains (cross_puzzle [''CAT'', ''ARM''])) []
       = Inr (d4, [(slotB, ''CAT'')], None) \<and>
     domains_le d4 (init_domains (cross_puzzle [''CAT'', ''ARM''])) \<and>
     solve 5 (cross_puzzle [''CAT'', ''ARM'']) (init_domains (cross_puzzle [''CAT'', ''ARM'']))
       = Some (Inr (d5, [(slotB, ''ARM''), (slotA, ''CAT'')],
                    Some [(slotB, ''ARM''), (slotA, ''CAT'')])) \<and>
     domains_le d5 (init_domains (cross_puzzle [''CAT'', ''ARM'']))"
proof -
  let ?cw = "cross_puzzle [''CAT'', ''ARM'']"
  let ?D = "init_domains ?cw"
  obtain d1 where 1: "revise ?cw ?D slotB slotA = Inr (d1, True)" "d1 slotB = Some [''ARM'']"
    by (simp add: run_defs)
  obtain d2 where 2: "ac3 ?cw ?D None = Some (Inr (d2, True))"
    by (simp add: run_defs)
  obtain d3 where 3: "order_domain_values ?cw ?D slotA [] = Inr (d3, Some [''CAT'', ''ARM''])"
    by (simp add: run_defs)
  obtain d4 where 4: "backtrack 5 ?cw ?D [] = Inr (d4, [(slotB, ''CAT'')], None)"
    by (simp add: run_defs eval_nat_numeral)
  obtain d5 where 5: "solve 5 ?cw ?D = Some (Inr (d5, [(slotB, ''ARM''), (slotA, ''CAT'')],
                    Some [(slotB, ''ARM''), (slotA, ''CAT'')]))"
    by (simp add: run_defs eval_nat_numeral)
  note t = domains_only_shrink [of ?D ?cw]
  from t 1 have "domains_le d1 ?D" by blast
  moreover from t 2 have "domains_le d2 ?D" by blast
  moreover from t 3 have "domains_le d3 ?D" by blast
  moreover from t 4 have "domains_le d4 ?D" by blast
  moreover from t 5 have "domains_le d5 ?D" by blast
  ultimately show ?thesis using 1 2 3 4 5 by blast
qed

subsection \<open>select\_unassigned\_variable\<close>

text \<open>
  C8 (the claim: the slot returned has the fewest remaining words, ties broken by the
  highest degree). The code on the fork puzzle with the pool CAT, COT, TO, EACH and the
  empty assignment: after node consistency the horizontal slot has two words and each
  vertical slot has one, and \<^verbatim>\<open>select_unassigned_variable\<close> returns the horizontal slot,
  the one of highest degree. It is the only slot of degree 2, so the iteration order of
  the sets plays no part.
\<close>

theorem select_unassigned_variable_ignores_domain_size:
  "select_unassigned_variable (fork_puzzle [''CAT'', ''COT'', ''TO'', ''EACH''])
     (enforce_node_consistency (init_domains (fork_puzzle [''CAT'', ''COT'', ''TO'', ''EACH''])))
     [] = Inr forkA
   \<and> enforce_node_consistency (init_domains (fork_puzzle [''CAT'', ''COT'', ''TO'', ''EACH'']))
       forkA = Some [''CAT'', ''COT'']
   \<and> enforce_node_consistency (init_domains (fork_puzzle [''CAT'', ''COT'', ''TO'', ''EACH'']))
       forkB = Some [''TO'']
   \<and> enforce_node_consistency (init_domains (fork_puzzle [''CAT'', ''COT'', ''TO'', ''EACH'']))
       forkC = Some [''EACH'']"
  by (simp add: run_defs)

subsection \<open>ac3 and empty domains\<close>

text \<open>
  The test \<^verbatim>\<open>self.domains[q[0]]==0\<close> never holds, so no iteration takes the early
  \<^verbatim>\<open>return False\<close>, and a call of \<^verbatim>\<open>ac3\<close> that returns returns \<^verbatim>\<open>True\<close>.
\<close>

lemma ac3_body_no_Return: "ac3_body cw doms q rest \<noteq> Inr (Return doms' b)"
  by (auto simp: ac3_body_def set_eq_int_def split: sum.splits option.splits)

lemma ac3_while_True:
  assumes "ac3_while cw doms quee = Some res"
  shows "\<forall>doms' b. res = Inr (doms', b) \<longrightarrow> b"
  using assms
proof (induct rule: ac3_while.raw_induct)
  case (1 f cw doms quee res)
  show ?case
  proof (cases quee)
    case Nil
    with 1(2) show ?thesis by auto
  next
    case (Cons q rest)
    show ?thesis
    proof (cases "ac3_body cw doms q rest")
      case (Inl e)
      with 1(2) Cons show ?thesis by auto
    next
      case (Inr it)
      show ?thesis
      proof (cases it)
        case (Return d bb)
        with Inr ac3_body_no_Return show ?thesis by blast
      next
        case (Continue d qq)
        with 1(2) Cons Inr have "f cw d qq = Some res" by simp
        moreover have "ac3_while cw d qq = Some res"
          using 1(3) Cons Inr Continue by (simp add: ac3_while_unfold_Continue)
        ultimately show ?thesis by (rule 1(1))
      qed
    qed
  qed
qed (rule assms)

lemma ac3_returns_True: "ac3 cw doms arcs = Some (Inr (doms', b)) \<Longrightarrow> b"
  unfolding ac3_def using ac3_while_True by blast

text \<open>
  C4 (the claim: \<^verbatim>\<open>ac3\<close> returns \<^verbatim>\<open>False\<close> as soon as a revised domain is empty, and
  \<^verbatim>\<open>True\<close> only when no domain is empty). The code on the two crossing slots with the pool
  CAT, DOG, where no second letter is a first letter: \<^verbatim>\<open>ac3\<close> empties both domains and
  returns \<^verbatim>\<open>True\<close>.
\<close>

theorem ac3_succeeds_with_empty_domains:
  "\<exists>d. ac3 (cross_puzzle [''CAT'', ''DOG'']) (init_domains (cross_puzzle [''CAT'', ''DOG''])) None
          = Some (Inr (d, True))
       \<and> d slotA = Some [] \<and> d slotB = Some []"
  by (simp add: run_defs)

subsection \<open>backtrack\<close>

text \<open>
  C2 (the claim: when \<^verbatim>\<open>backtrack\<close> returns \<^verbatim>\<open>None\<close> the dictionary is as it was at
  entry). The code on the fork puzzle with the pool COT, TO, EACH, called on the empty
  dictionary: it returns \<^verbatim>\<open>None\<close> and the dictionary holds COT for the horizontal slot.
  Each domain has one word and the horizontal slot alone has degree 2, so the iteration
  order of the sets plays no part.
\<close>

theorem backtrack_failure_leaves_entry:
  "\<exists>d. backtrack 5 (fork_puzzle [''COT'', ''TO'', ''EACH''])
          (enforce_node_consistency (init_domains (fork_puzzle [''COT'', ''TO'', ''EACH''])))
          [] = Inr (d, [(forkA, ''COT'')], None)"
  by (simp add: run_defs eval_nat_numeral)

text \<open>
  C3 (the claim: a value whose recursive call fails is undone and the next value is
  tried). The code on the fork puzzle with the pool COT, TOE, TO, EACH, the domain of the
  horizontal slot iterated as COT, TOE: \<^verbatim>\<open>backtrack\<close> returns \<^verbatim>\<open>None\<close> after COT alone,
  although TOE, TO, EACH is a complete consistent assignment, which the same call
  returns when the domain is iterated as TOE, COT.
\<close>

theorem backtrack_gives_up_after_first_value:
  "(\<exists>d. backtrack 5 (fork_puzzle [''COT'', ''TOE'', ''TO'', ''EACH''])
          (enforce_node_consistency (init_domains (fork_puzzle [''COT'', ''TOE'', ''TO'', ''EACH''])))
          [] = Inr (d, [(forkA, ''COT'')], None))
   \<and> enforce_node_consistency (init_domains (fork_puzzle [''COT'', ''TOE'', ''TO'', ''EACH'']))
       forkA = Some [''COT'', ''TOE'']
   \<and> assignment_complete (fork_puzzle [''COT'', ''TOE'', ''TO'', ''EACH''])
       [(forkA, ''TOE''), (forkC, ''EACH''), (forkB, ''TO'')] = Inr True
   \<and> (\<exists>d. backtrack 5 (fork_puzzle [''TOE'', ''COT'', ''TO'', ''EACH''])
          (enforce_node_consistency (init_domains (fork_puzzle [''TOE'', ''COT'', ''TO'', ''EACH''])))
          [] = Inr (d, [(forkA, ''TOE''), (forkC, ''EACH''), (forkB, ''TO'')],
                    Some [(forkA, ''TOE''), (forkC, ''EACH''), (forkB, ''TO'')]))"
  by (simp add: run_defs eval_nat_numeral)


subsection \<open>revise\<close>

text \<open>
  C6 as stated (a word is kept if and only if some word of the other domain, possibly the
  same string, matches it at the overlap) fails: a horizontal and a vertical slot share their
  first cell and both domains are CAT. CAT matches CAT at the shared cell, and \<^verbatim>\<open>revise\<close>
  removes it: the guard \<^verbatim>\<open>if domY in res: res.remove(domY)\<close> drops the word under test
  from its own list of matches.
\<close>

theorem revise_drops_word_supported_by_itself:
  "revise (ring_puzzle [''CAT'']) (init_domains (ring_puzzle [''CAT''])) ringTop ringLeft
     = Inr ((init_domains (ring_puzzle [''CAT'']))(ringTop \<mapsto> []), True)
   \<and> init_domains (ring_puzzle [''CAT'']) ringTop = Some [''CAT'']
   \<and> init_domains (ring_puzzle [''CAT'']) ringLeft = Some [''CAT'']
   \<and> overlaps (ring_puzzle [''CAT'']) (ringLeft, ringTop) = Some (0, 0)
   \<and> ''CAT'' ! 0 = ''CAT'' ! 0"
  by (simp add: revise_def int_ne_set_def init_domains_def ring_puzzle_def ringTop_def
      ringLeft_def)

text \<open>
  C6 amended. For slots \<open>x\<close> and \<open>y\<close> with an overlap record and domains without
  duplicates, a call \<^verbatim>\<open>revise(x, y)\<close> that returns leaves every other domain as it was and
  keeps a word \<open>w\<close> of the domain of \<open>x\<close> if and only if some word \<open>v\<close> of the domain of
  \<open>y\<close>, different from \<open>w\<close> as a string, has at its overlap position the character
  \<open>w\<close> has at its own; exactly the words without such a partner are removed.
\<close>

theorem revise_keeps_words_supported_by_another_word:
  assumes "revise cw doms x y = Inr (doms', revised)"
    and "doms x = Some dx" and "doms y = Some dy" and "distinct dx"
    and "overlaps cw (y, x) = Some (iy, ix)"
  shows "\<exists>aux. doms' = doms(x \<mapsto> aux) \<and> distinct aux \<and>
           set aux = {w \<in> set dx. \<exists>v \<in> set dy. v \<noteq> w \<and> w ! ix = v ! iy}"
proof -
  from assms(1) obtain dx' dy' iy' ix' aux where h: "doms x = Some dx'" "doms y = Some dy'"
    "overlaps cw (y, x) = Some (iy', ix')" "revise_for dy' dx' ix' iy' [] = Inr aux"
    "doms' = doms(x \<mapsto> aux)"
    by (rule revise_Inr)
  with assms(2,3,5) have r: "revise_for dy dx ix iy [] = Inr aux" by simp
  from revise_for_set [OF r assms(4)] revise_for_distinct [OF r] h(5)
  show ?thesis by auto
qed

text \<open>
  On the two crossing slots with both domains CAT, ARM, revising the vertical slot against
  the horizontal one keeps ARM (its first letter is the second letter of CAT) and nothing
  else.
\<close>

theorem revise_keeps_words_supported_by_another_word_witness:
  "\<exists>aux. revise (cross_puzzle [''CAT'', ''ARM'']) (init_domains (cross_puzzle [''CAT'', ''ARM'']))
            slotB slotA
          = Inr ((init_domains (cross_puzzle [''CAT'', ''ARM'']))(slotB \<mapsto> aux), True)
        \<and> set aux = {''ARM''}"
proof -
  let ?cw = "cross_puzzle [''CAT'', ''ARM'']"
  let ?D = "init_domains ?cw"
  have r: "revise ?cw ?D slotB slotA = Inr (?D(slotB \<mapsto> [''ARM'']), True)"
    by (simp add: run_defs)
  have x: "?D slotB = Some [''CAT'', ''ARM'']" and y: "?D slotA = Some [''CAT'', ''ARM'']"
    and d: "distinct [''CAT'', ''ARM'']"
    and o: "overlaps ?cw (slotA, slotB) = Some (1, 0)"
    by (simp_all add: run_defs)
  from revise_keeps_words_supported_by_another_word [OF r x y d o]
  obtain aux where a: "?D(slotB \<mapsto> [''ARM'']) = ?D(slotB \<mapsto> aux)"
    "set aux = {w \<in> set [''CAT'', ''ARM'']. \<exists>v \<in> set [''CAT'', ''ARM'']. v \<noteq> w \<and> w ! 0 = v ! 1}"
    by blast
  from a(1) have "aux = [''ARM'']" by (metis map_upd_eqD1)
  with r show ?thesis by auto
qed

subsection \<open>The arcs ac3 hands to revise\<close>

lemma revise_res_error: "revise_res dx ix iy v = Inl e \<Longrightarrow> e = IndexError"
  by (induction dx) (auto split: if_splits sum.splits)

lemma revise_for_error: "revise_for dy dx ix iy aux = Inl e \<Longrightarrow> e = IndexError"
  by (induction dy arbitrary: aux) (auto split: sum.splits dest: revise_res_error)

lemma revise_TypeError:
  "revise cw doms x y = Inl TypeError \<Longrightarrow> overlaps cw (y, x) = None"
  by (auto simp: revise_def split: option.splits sum.splits dest: revise_for_error)

lemma initial_arcs_neighbours:
  "(a, b) \<in> set (initial_arcs cw) \<Longrightarrow> a \<in> set (neighbors cw b) \<and> b \<in> set (variables cw)"
  by (auto simp: initial_arcs_def)

lemma ac3_body_Continue:
  assumes "ac3_body cw doms q rest = Inr (Continue doms' quee')"
  shows "set quee' \<subseteq> set rest \<union> (\<lambda>v. (v, fst q)) ` set (neighbors cw (fst q))"
  using assms unfolding ac3_body_def
  by (auto split: sum.splits if_splits option.splits)

lemma ac3_reach_arcs:
  assumes "ac3_reach cw doms0 s"
  shows "\<forall>(a, b) \<in> set (snd s). a \<in> set (neighbors cw b) \<and> b \<in> set (variables cw)"
  using assms
proof (induction rule: ac3_reach.induct)
  case start
  then show ?case by (auto dest: initial_arcs_neighbours)
next
  case (iterate doms q rest doms' quee')
  from iterate.IH have q: "fst q \<in> set (neighbors cw (snd q))"
    and rest: "\<forall>(a, b) \<in> set rest. a \<in> set (neighbors cw b) \<and> b \<in> set (variables cw)"
    by (auto simp: case_prod_unfold)
  from q have "fst q \<in> set (variables cw)" by (simp add: neighbors_def)
  with ac3_body_Continue [OF iterate.hyps(2)] rest show ?case by auto
qed

text \<open>The relation follows the loop: every state it reaches continues the same run.\<close>

lemma ac3_reach_run:
  assumes "ac3_reach cw doms0 s"
  shows "ac3_while cw (fst s) (snd s) = ac3_while cw doms0 (initial_arcs cw)"
  using assms
proof (induction rule: ac3_reach.induct)
  case start
  show ?case by simp
next
  case (iterate doms q rest doms' quee')
  from ac3_while_unfold_Continue [OF iterate.hyps(2)] iterate.IH show ?case by simp
qed

text \<open>
  C10. Let the puzzle record an overlap for both orders of every pair of neighbouring slots
  (for every slot \<open>x\<close> and every neighbour \<open>y\<close> of it, \<^verbatim>\<open>overlaps[x, y]\<close> is present;
  \<^verbatim>\<open>overlaps[y, x]\<close> is, by the definition of a neighbour). Then at every state the loop of
  \<^verbatim>\<open>ac3\<close> reaches, the pair \<open>q\<close> at the head of the worklist, which the next iteration
  passes to \<^verbatim>\<open>revise\<close>, consists of two slots that are neighbours of each other, the record
  \<^verbatim>\<open>overlaps[q[1], q[0]]\<close> that \<^verbatim>\<open>revise\<close> reads is present, and \<^verbatim>\<open>revise\<close> does not fail
  on a missing record.
\<close>

theorem ac3_passes_neighbours_to_revise:
  assumes "\<forall>x \<in> set (variables cw). \<forall>y \<in> set (neighbors cw x). overlaps cw (x, y) \<noteq> None"
    and "ac3_reach cw doms0 (doms, q # rest)"
  shows "fst q \<in> set (neighbors cw (snd q)) \<and> snd q \<in> set (neighbors cw (fst q)) \<and>
         overlaps cw (snd q, fst q) \<noteq> None \<and>
         revise cw doms (fst q) (snd q) \<noteq> Inl TypeError"
proof -
  from ac3_reach_arcs [OF assms(2)] have n: "fst q \<in> set (neighbors cw (snd q))"
    and v: "snd q \<in> set (variables cw)" by (auto simp: case_prod_unfold)
  from assms(1) v n have o: "overlaps cw (snd q, fst q) \<noteq> None" by blast
  from n have "fst q \<noteq> snd q" by (auto simp: neighbors_def)
  with v o have "snd q \<in> set (neighbors cw (fst q))" by (auto simp: neighbors_def)
  with n o revise_TypeError [of cw doms "fst q" "snd q"] show ?thesis by auto
qed

text \<open>
  The two crossing slots: the first pair of the initial worklist is (vertical, horizontal).
\<close>

theorem ac3_passes_neighbours_to_revise_witness:
  "slotB \<in> set (neighbors (cross_puzzle [''CAT'', ''ARM'']) slotA) \<and>
   slotA \<in> set (neighbors (cross_puzzle [''CAT'', ''ARM'']) slotB) \<and>
   overlaps (cross_puzzle [''CAT'', ''ARM'']) (slotA, slotB) \<noteq> None \<and>
   revise (cross_puzzle [''CAT'', ''ARM'']) (init_domains (cross_puzzle [''CAT'', ''ARM'']))
     slotB slotA \<noteq> Inl TypeError"
proof -
  let ?cw = "cross_puzzle [''CAT'', ''ARM'']"
  have sym: "\<forall>x \<in> set (variables ?cw). \<forall>y \<in> set (neighbors ?cw x). overlaps ?cw (x, y) \<noteq> None"
    by (simp add: run_defs)
  have "initial_arcs ?cw = (slotB, slotA) # [(slotA, slotB)]" by (simp add: run_defs)
  with ac3_reach.start [of ?cw "init_domains ?cw"]
  have "ac3_reach ?cw (init_domains ?cw) (init_domains ?cw, (slotB, slotA) # [(slotA, slotB)])"
    by simp
  from ac3_passes_neighbours_to_revise [OF sym this] show ?thesis by simp
qed


subsection \<open>Termination of ac3\<close>

text \<open>
  From a busy state the next iteration raises nothing, does not return, and ends in a busy
  state: \<^verbatim>\<open>revise\<close> returns \<^verbatim>\<open>True\<close> whatever it did, so the loop appends the pairs
  \<^verbatim>\<open>(vecino, q[0])\<close> for the neighbours of \<^verbatim>\<open>q[0]\<close> other than \<^verbatim>\<open>q[1]\<close>, of which there is
  at least one.
\<close>

lemma ac3_busy_step:
  assumes "ac3_busy cw doms (q # rest)"
  shows "\<exists>doms' quee'. ac3_body cw doms q rest = Inr (Continue doms' quee') \<and>
           ac3_busy cw doms' quee'"
proof -
  obtain x y where q: "q = (x, y)" by (cases q)
  from assms have sym: "\<forall>x \<in> set (variables cw). \<forall>y \<in> set (neighbors cw x). overlaps cw (x, y) \<noteq> None"
    and deg: "\<forall>x \<in> set (variables cw).
         \<exists>a \<in> set (neighbors cw x). \<exists>b \<in> set (neighbors cw x). a \<noteq> b"
    and rng: "\<forall>x y iy ix. overlaps cw (y, x) = Some (iy, ix) \<longrightarrow>
         iy < var_length y \<and> ix < var_length x"
    and nc: "node_consistent doms"
    and present: "\<forall>x \<in> set (variables cw). doms x \<noteq> None"
    and arcs: "\<forall>(a, b) \<in> set (q # rest). a \<in> set (neighbors cw b) \<and> b \<in> set (variables cw)"
    unfolding ac3_busy_def by blast+
  from arcs q have xn: "x \<in> set (neighbors cw y)" and yv: "y \<in> set (variables cw)" by auto
  from xn have xv: "x \<in> set (variables cw)" and xy: "x \<noteq> y" by (auto simp: neighbors_def)
  from sym yv xn obtain iy ix where o: "overlaps cw (y, x) = Some (iy, ix)" by fastforce
  with yv xy have yn: "y \<in> set (neighbors cw x)" by (auto simp: neighbors_def)
  from present xv obtain dx where dx: "doms x = Some dx" by blast
  from present yv obtain dy where dy: "doms y = Some dy" by blast
  from rng o have "iy < var_length y" "ix < var_length x" by blast+
  with nc dx dy have "\<forall>w \<in> set dx. ix < length w" "\<forall>v \<in> set dy. iy < length v"
    by (auto simp: node_consistent_def)
  from revise_for_total [OF this] obtain aux where
    aux: "revise_for dy dx ix iy [] = Inr aux" by blast
  let ?doms' = "doms(x \<mapsto> aux)"
  let ?quee' = "rest @ map (\<lambda>vecino. (vecino, x)) (removeAll y (neighbors cw x))"
  have body: "ac3_body cw doms q rest = Inr (Continue ?doms' ?quee')"
    using q dx dy o aux yn
    by (simp add: ac3_body_def revise_def int_ne_set_def set_eq_int_def)
  from revise_for_subset [OF aux] have "set aux \<subseteq> set dx" by simp
  with nc dx have nc': "node_consistent ?doms'"
    by (auto simp: node_consistent_def)
  from deg xv obtain a b where "a \<in> set (neighbors cw x)" "b \<in> set (neighbors cw x)" "a \<noteq> b"
    by blast
  then have "set (removeAll y (neighbors cw x)) \<noteq> {}" by auto
  then have "removeAll y (neighbors cw x) \<noteq> []" by (simp only: set_empty not_False_eq_True)
  then have ne: "?quee' \<noteq> []" by simp
  have arcs': "\<forall>(a, b) \<in> set ?quee'. a \<in> set (neighbors cw b) \<and> b \<in> set (variables cw)"
    using arcs xv by auto
  have "ac3_busy cw ?doms' ?quee'"
    unfolding ac3_busy_def using sym deg rng nc' present ne arcs' by simp
  with body show ?thesis by blast
qed

lemma ac3_while_busy:
  assumes "ac3_while cw doms quee = Some res"
  shows "\<not> ac3_busy cw doms quee"
  using assms
proof (induct rule: ac3_while.raw_induct)
  case (1 f cw doms quee res)
  show ?case
  proof
    assume busy: "ac3_busy cw doms quee"
    then obtain q rest where quee: "quee = q # rest"
      by (cases quee) (auto simp: ac3_busy_def)
    from ac3_busy_step [OF busy [unfolded quee]] obtain doms' quee' where
      body: "ac3_body cw doms q rest = Inr (Continue doms' quee')"
      and busy': "ac3_busy cw doms' quee'" by blast
    from 1(2) quee body have "f cw doms' quee' = Some res" by simp
    moreover from 1(3) quee body have "ac3_while cw doms' quee' = Some res"
      by (simp add: ac3_while_unfold_Continue)
    ultimately have "\<not> ac3_busy cw doms' quee'" by (rule 1(1))
    with busy' show False by contradiction
  qed
qed (rule assms)

lemma ring_neighbors:
  "neighbors (ring_puzzle ws) ringTop = [ringLeft, ringRight]"
  "neighbors (ring_puzzle ws) ringBottom = [ringLeft, ringRight]"
  "neighbors (ring_puzzle ws) ringLeft = [ringTop, ringBottom]"
  "neighbors (ring_puzzle ws) ringRight = [ringTop, ringBottom]"
  by (simp_all add: neighbors_def ring_puzzle_def ringTop_def ringBottom_def ringLeft_def
      ringRight_def)

lemma ring_busy:
  "ac3_busy (ring_puzzle ws) (enforce_node_consistency (init_domains (ring_puzzle ws)))
     (initial_arcs (ring_puzzle ws))"
proof -
  let ?cw = "ring_puzzle ws"
  have v: "variables ?cw = [ringTop, ringBottom, ringLeft, ringRight]"
    by (simp add: ring_puzzle_def)
  have ne: "ringLeft \<noteq> ringRight" "ringTop \<noteq> ringBottom"
    by (simp_all add: ringTop_def ringBottom_def ringLeft_def ringRight_def)
  have sym: "\<forall>x \<in> set (variables ?cw). \<forall>y \<in> set (neighbors ?cw x). overlaps ?cw (x, y) \<noteq> None"
    unfolding v by (simp add: ring_neighbors)
      (simp add: ring_puzzle_def ringTop_def ringBottom_def ringLeft_def ringRight_def)
  have deg: "\<forall>x \<in> set (variables ?cw).
         \<exists>a \<in> set (neighbors ?cw x). \<exists>b \<in> set (neighbors ?cw x). a \<noteq> b"
  proof
    fix x
    assume "x \<in> set (variables ?cw)"
    then consider "x = ringTop" | "x = ringBottom" | "x = ringLeft" | "x = ringRight"
      unfolding v by auto
    then show "\<exists>a \<in> set (neighbors ?cw x). \<exists>b \<in> set (neighbors ?cw x). a \<noteq> b"
    proof cases
      case 1
      have "ringLeft \<in> set (neighbors ?cw x)" "ringRight \<in> set (neighbors ?cw x)"
        using 1 by (simp_all add: ring_neighbors)
      with ne(1) show ?thesis by blast
    next
      case 2
      have "ringLeft \<in> set (neighbors ?cw x)" "ringRight \<in> set (neighbors ?cw x)"
        using 2 by (simp_all add: ring_neighbors)
      with ne(1) show ?thesis by blast
    next
      case 3
      have "ringTop \<in> set (neighbors ?cw x)" "ringBottom \<in> set (neighbors ?cw x)"
        using 3 by (simp_all add: ring_neighbors)
      with ne(2) show ?thesis by blast
    next
      case 4
      have "ringTop \<in> set (neighbors ?cw x)" "ringBottom \<in> set (neighbors ?cw x)"
        using 4 by (simp_all add: ring_neighbors)
      with ne(2) show ?thesis by blast
    qed
  qed
  have rng: "\<forall>x y iy ix. overlaps ?cw (y, x) = Some (iy, ix) \<longrightarrow>
         iy < var_length y \<and> ix < var_length x"
    by (auto simp: ring_puzzle_def ringTop_def ringBottom_def ringLeft_def ringRight_def
        split: if_splits)
  have present: "\<forall>x \<in> set (variables ?cw).
      enforce_node_consistency (init_domains ?cw) x \<noteq> None"
    by (simp add: enforce_node_consistency_def init_domains_def)
  have q: "initial_arcs ?cw \<noteq> []"
    unfolding initial_arcs_def v by (simp add: ring_neighbors)
  have arcs: "\<forall>(a, b) \<in> set (initial_arcs ?cw).
      a \<in> set (neighbors ?cw b) \<and> b \<in> set (variables ?cw)"
    using initial_arcs_neighbours by blast
  show ?thesis
    unfolding ac3_busy_def
    using sym deg rng enforce_node_consistency_nc present q arcs by blast
qed

text \<open>
  C5 (the claim: the worklist loop of \<^verbatim>\<open>ac3\<close> ends for every finite puzzle and word pool).
  The code on the border of a 3 by 3 grid (four slots of length 3, each crossing two
  others) with the pool CAT, TOE, COT, TEE, after node consistency: \<^verbatim>\<open>ac3\<close> never returns,
  and so neither does \<^verbatim>\<open>solve\<close>. Every iteration takes one pair off the worklist and
  appends one.
\<close>

theorem ac3_never_returns_on_ring:
  "ac3 (ring_puzzle [''CAT'', ''TOE'', ''COT'', ''TEE''])
     (enforce_node_consistency (init_domains (ring_puzzle [''CAT'', ''TOE'', ''COT'', ''TEE''])))
     None = None
   \<and> solve depth (ring_puzzle [''CAT'', ''TOE'', ''COT'', ''TEE''])
       (init_domains (ring_puzzle [''CAT'', ''TOE'', ''COT'', ''TEE''])) = None"
proof -
  let ?cw = "ring_puzzle [''CAT'', ''TOE'', ''COT'', ''TEE'']"
  have "ac3 ?cw (enforce_node_consistency (init_domains ?cw)) None = None"
    unfolding ac3_def using ac3_while_busy ring_busy by (metis option.exhaust)
  then show ?thesis by (simp add: solve_def)
qed

end
